theory Spec2Isabelle
  imports Main "HOL-Library.Sublist"
begin

section \<open>Strings\<close>

text \<open>
  Python's \<open>str\<close> is a sequence of code points. The model uses \<open>string\<close>, read as
  the code points below 256 (Latin-1), which covers ASCII log text. \<open>len\<close> is
  \<open>length\<close>, a slice \<open>s[:n]\<close> with \<open>0 \<le> n\<close> is \<open>take n s\<close>.
\<close>

definition is_upper :: "char \<Rightarrow> bool" where
  "is_upper c =
     (let n = (of_char c :: nat)
      in (65 \<le> n \<and> n \<le> 90) \<or> (192 \<le> n \<and> n \<le> 222 \<and> n \<noteq> 215))"

definition lower_char :: "char \<Rightarrow> char" where
  "lower_char c = (if is_upper c then char_of ((of_char c :: nat) + 32) else c)"

text \<open>\<open>str.lower()\<close>: below code point 256 it works character by character.\<close>

definition lower :: "string \<Rightarrow> string" where
  "lower s = map lower_char s"

text \<open>
  \<open>\s\<close> in a \<open>str\<close> pattern is Unicode whitespace; below 256 these are the code
  points 9 to 13, 28 to 32, 133 and 160.
\<close>

definition is_space :: "char \<Rightarrow> bool" where
  "is_space c =
     (let n = (of_char c :: nat)
      in (9 \<le> n \<and> n \<le> 13) \<or> (28 \<le> n \<and> n \<le> 32) \<or> n = 133 \<or> n = 160)"

text \<open>\<open>SPLIT_REGEX = r"[\s/\[\]]"\<close>: one whitespace character, or one of \<open>/ [ ]\<close>.\<close>

definition SPLIT_REGEX :: "char \<Rightarrow> bool" where
  "SPLIT_REGEX c = (is_space c \<or> c = CHR ''/'' \<or> c = CHR ''['' \<or> c = CHR '']'')"

text \<open>
  \<open>re.split(SPLIT_REGEX, s)\<close>: the pattern matches exactly one character, so the
  string is cut at every delimiter; two adjacent delimiters, a leading or a trailing
  one give an empty token, and the result always has at least one element.
\<close>

fun re_split :: "string \<Rightarrow> string list" where
  "re_split [] = [[]]"
| "re_split (c # cs) =
     (if SPLIT_REGEX c then [] # re_split cs
      else (case re_split cs of
              [] \<Rightarrow> [[c]]
            | w # ws \<Rightarrow> (c # w) # ws))"

section \<open>The bounded cache\<close>

text \<open>
  Modelled from the spec: \<open>LRUCache\<close> comes from the UI library and is not part of the
  source file. The spec describes it as a bounded map with a fixed maximum entry count
  and least-recently-used eviction, whose lookups report a miss. The model keeps the
  entries in order of use, most recent first, with one entry per key. Item assignment
  is the library's \<open>set\<close>, which inserts a key that is absent and leaves the entry of a
  key that is present as it is.
\<close>

record ('k, 'v) lru_cache =
  maxsize :: nat
  entries :: "('k \<times> 'v) list"

definition LRUCache :: "nat \<Rightarrow> ('k, 'v) lru_cache" where
  "LRUCache n = \<lparr>maxsize = n, entries = []\<rparr>"

text \<open>The map the cache holds.\<close>

definition lru_lookup :: "('k, 'v) lru_cache \<Rightarrow> 'k \<Rightarrow> 'v option" where
  "lru_lookup c k = map_of (entries c) k"

text \<open>\<open>key in cache\<close>.\<close>

definition lru_contains :: "('k, 'v) lru_cache \<Rightarrow> 'k \<Rightarrow> bool" where
  "lru_contains c k = (lru_lookup c k \<noteq> None)"

definition lru_remove :: "'k \<Rightarrow> ('k \<times> 'v) list \<Rightarrow> ('k \<times> 'v) list" where
  "lru_remove k es = filter (\<lambda>e. fst e \<noteq> k) es"

text \<open>
  \<open>cache[key]\<close> and \<open>cache.get(key)\<close>: \<open>None\<close> is the miss (\<open>KeyError\<close> for the
  first, the default for the second); a hit makes the entry the most recently used.
\<close>

definition lru_get :: "('k, 'v) lru_cache \<Rightarrow> 'k \<Rightarrow> ('v \<times> ('k, 'v) lru_cache) option" where
  "lru_get c k =
     (case lru_lookup c k of
        None \<Rightarrow> None
      | Some v \<Rightarrow> Some (v, c\<lparr>entries := (k, v) # lru_remove k (entries c)\<rparr>))"

text \<open>
  \<open>cache[key] = value\<close>: a key that is present keeps its value and its place. A key
  that is absent is entered as the most recently used; when the cache then holds more
  than \<open>maxsize\<close> entries, the least recently used ones are dropped.
\<close>

definition lru_set :: "('k, 'v) lru_cache \<Rightarrow> 'k \<Rightarrow> 'v \<Rightarrow> ('k, 'v) lru_cache" where
  "lru_set c k v =
     (if lru_contains c k then c
      else c\<lparr>entries := take (maxsize c) ((k, v) # entries c)\<rparr>)"

section \<open>The suggestion index\<close>

type_synonym search_index = "(string, string) lru_cache"

text \<open>
  The body of the inner loop of \<open>render_line\<close>, for one \<open>offset\<close>:
  \<^verbatim>\<open>
  sub_word = word[:offset]
  if sub_word in search_index:
      if len(search_index[sub_word]) < len(word):
          search_index[sub_word.lower()] = word
  else:
      search_index[sub_word.lower()] = word
  \<close>
  The membership test and the read use \<open>sub_word\<close> as it is; the two stores use its
  lowercase form.
\<close>

definition index_prefix :: "string \<Rightarrow> nat \<Rightarrow> search_index \<Rightarrow> search_index" where
  "index_prefix word offset search_index =
     (let sub_word = take offset word
      in if lru_contains search_index sub_word then
           (case lru_get search_index sub_word of
              None \<Rightarrow> search_index
            | Some (hit, search_index') \<Rightarrow>
                if length hit < length word
                then lru_set search_index' (lower sub_word) word
                else search_index')
         else lru_set search_index (lower sub_word) word)"

text \<open>
  One word of the outer loop: words of length at most 1 are skipped, the others run the
  inner loop over \<open>range(1, len(word) - 1)\<close>.
\<close>

definition index_word :: "string \<Rightarrow> search_index \<Rightarrow> search_index" where
  "index_word word search_index =
     (if length word \<le> 1 then search_index
      else fold (index_prefix word) [1 ..< length word - 1] search_index)"

text \<open>
  The indexing loop of \<open>render_line\<close> (the spec's \<open>observe\<close>):
  \<open>for word in re.split(SPLIT_REGEX, text.plain): ...\<close>
\<close>

definition observe :: "search_index \<Rightarrow> string \<Rightarrow> search_index" where
  "observe search_index text = fold index_word (re_split text) search_index"

text \<open>
  \<open>SearchSuggester.get_suggestion\<close>. The result is the suggestion, with the index
  after the lookup (a hit refreshes the entry).
\<close>

definition get_suggestion :: "search_index \<Rightarrow> string \<Rightarrow> string option \<times> search_index" where
  "get_suggestion search_index val =
     (let word = last (re_split val);
          start = (if word = [] then [] else take (length val - length word) val)
      in if word = [] then (None, search_index)
         else (case lru_get search_index (lower word) of
                 None \<Rightarrow> (None, search_index)
               | Some (search_hit, search_index') \<Rightarrow> (Some (start @ search_hit), search_index')))"

section \<open>Errors\<close>

text \<open>
  The exceptions that leave the modelled methods: \<open>re.error\<close> for a pattern that does
  not compile, and the out-of-range failure of \<open>get_line\<close>.
\<close>

datatype error = ReError | OutOfRange

section \<open>The regular-expression library\<close>

text \<open>
  Python's \<open>re\<close> module is a parameter of the model. An engine takes the pattern and
  whether \<open>re.IGNORECASE\<close> is set; \<open>None\<close> means the pattern does not compile
  (\<open>re.error\<close> is raised), and \<open>Some m\<close> gives the compiled pattern, where
  \<open>m line pos\<close> tells whether the pattern matches \<open>line\<close> starting at position \<open>pos\<close>.
\<close>

type_synonym re_engine = "string \<Rightarrow> bool \<Rightarrow> (string \<Rightarrow> nat \<Rightarrow> bool) option"

text \<open>\<open>re.match(pattern, line, flags) is not None\<close>: a match starting at position 0.\<close>

definition re_match :: "re_engine \<Rightarrow> string \<Rightarrow> string \<Rightarrow> bool \<Rightarrow> error + bool" where
  "re_match re pattern line ignorecase =
     (case re pattern ignorecase of
        None \<Rightarrow> Inl ReError
      | Some m \<Rightarrow> Inr (m line 0))"

text \<open>
  \<open>re.search(pattern, line, flags) is not None\<close>: a match starting anywhere in the
  line. The source does not call it; it is what \<open>check_match\<close> is compared with.
\<close>

definition re_search :: "re_engine \<Rightarrow> string \<Rightarrow> string \<Rightarrow> bool \<Rightarrow> error + bool" where
  "re_search re pattern line ignorecase =
     (case re pattern ignorecase of
        None \<Rightarrow> Inl ReError
      | Some m \<Rightarrow> Inr (list_ex (m line) [0 ..< Suc (length line)]))"

text \<open>
  What the model asks of the library for an empty pattern, where it is needed: the
  empty pattern compiles, with or without \<open>re.IGNORECASE\<close>, and matches at the start
  of every line.
\<close>

definition empty_pattern_matches :: "re_engine \<Rightarrow> bool" where
  "empty_pattern_matches re =
     (\<forall>ignorecase. \<exists>m. re [] ignorecase = Some m \<and> (\<forall>line. m line 0))"

section \<open>The mapped file\<close>

text \<open>
  Modelled from the spec: \<open>MappedFile\<close> lives in a module that is not part of the
  source file. The spec gives it a \<open>line_count\<close>, and \<open>get_line(i)\<close> returning the
  decoded text of line \<open>i\<close> without its terminator and failing with an out-of-range
  error if \<open>i \<ge> line_count\<close>. The model keeps the decoded text of the indexed lines.
  The spec is silent on a negative \<open>i\<close>; the model fails there too, and no theorem
  below depends on it.
\<close>

record mapped_file =
  file_lines :: "string list"

definition line_count :: "mapped_file \<Rightarrow> int" where
  "line_count mf = int (length (file_lines mf))"

definition get_line :: "mapped_file \<Rightarrow> int \<Rightarrow> error + string" where
  "get_line mf i =
     (if 0 \<le> i \<and> i < line_count mf then Inr (file_lines mf ! nat i) else Inl OutOfRange)"

text \<open>
  Modelled from the spec: \<open>get_text(i)\<close> returns the line, its text and an optional
  leading timestamp, extracted by a fixed grammar matched at the start of the line. The
  grammar is a parameter: \<open>scan line\<close> is \<open>None\<close> when it does not match, and the
  timestamp (as it is printed) with the remaining text when it does.
\<close>

type_synonym timestamp_scanner = "string \<Rightarrow> (string \<times> string) option"

definition get_text ::
  "timestamp_scanner \<Rightarrow> mapped_file \<Rightarrow> int \<Rightarrow> error + (string \<times> string \<times> string option)" where
  "get_text scan mf i =
     (case get_line mf i of
        Inl e \<Rightarrow> Inl e
      | Inr line \<Rightarrow>
          (case scan line of
             None \<Rightarrow> Inr (line, line, None)
           | Some (timestamp, text) \<Rightarrow> Inr (line, text, Some timestamp)))"

section \<open>The widget state\<close>

text \<open>
  A \<open>Strip\<close> is kept as the term of library calls that builds it; styles are not
  carried. \<open>Blank w\<close> is \<open>Strip.blank(w, style)\<close>, \<open>Rendered plain n\<close> is
  \<open>Strip(text.render(console), n)\<close> for a text with that plain content,
  \<open>Crop_Extend s a b p\<close> is \<open>s.crop_extend(a, b, style)\<close> with the pointer style if
  \<open>p\<close> and no style otherwise, and \<open>Gutter icon s\<close> is the strip joined to the icon.
\<close>

datatype icon = Pointer_Hand | Icon string

datatype strip =
    Blank int
  | Rendered string int
  | Crop_Extend strip int int bool
  | Gutter icon strip

text \<open>
  \<open>LogLines\<close>: its reactive attributes, the fields set in \<open>__init__\<close>, and the
  geometry the methods read from the widget (\<open>scroll_offset\<close>, \<open>size\<close>,
  \<open>max_scroll_y\<close>, \<open>scrollable_content_region.height\<close>). \<open>scroll_request\<close> holds
  the arguments \<open>y\<close> and \<open>animate\<close> of the last \<open>scroll_to\<close> call.
\<close>

record log_lines =
  show_find :: bool
  find' :: string
  case_sensitive :: bool
  regex :: bool
  show_gutter :: bool
  pointer_line :: "int option"
  show_timestamps :: bool
  is_scrolling :: int
  mapped_file :: mapped_file
  render_line_cache :: "(int \<times> bool, strip) lru_cache"
  max_width :: int
  search_index :: search_index
  icons :: "int \<rightharpoonup> string"
  scroll_x :: int
  scroll_y :: int
  width :: int
  height :: int
  max_scroll_y :: int
  region_height :: int
  scroll_request :: "(int \<times> bool) option"

section \<open>Matching a line\<close>

text \<open>\<open>needle in haystack\<close> for strings: substring containment.\<close>

fun str_in :: "string \<Rightarrow> string \<Rightarrow> bool" where
  "str_in needle [] = (needle = [])"
| "str_in needle (c # cs) = (prefix needle (c # cs) \<or> str_in needle cs)"

text \<open>
  \<open>LogLines.check_match\<close>. An empty line matches before the predicate is looked at;
  a regex predicate goes to \<open>re.match\<close>, whose exception is not caught here.
\<close>

definition check_match :: "re_engine \<Rightarrow> log_lines \<Rightarrow> string \<Rightarrow> error + bool" where
  "check_match re self line =
     (if line = [] then Inr True
      else if regex self then
        re_match re (find' self) line (\<not> case_sensitive self)
      else if case_sensitive self then Inr (str_in (find' self) line)
      else Inr (str_in (lower (find' self)) (lower line)))"

section \<open>Directional search\<close>

text \<open>
  The loop of \<open>advance_search\<close>:
  \<^verbatim>\<open>
  for line_no in line_range:
      line = self.mapped_file.get_line(line_no)
      if check_match(line):
          self.pointer_line = line_no
          break
  \<close>
  The result is the line number at which the loop breaks, \<open>None\<close> if it runs to the
  end of the range, or the exception of \<open>get_line\<close> or \<open>check_match\<close>.
\<close>

fun scan_lines :: "re_engine \<Rightarrow> log_lines \<Rightarrow> int list \<Rightarrow> error + int option" where
  "scan_lines re self [] = Inr None"
| "scan_lines re self (line_no # rest) =
     (case get_line (mapped_file self) line_no of
        Inl e \<Rightarrow> Inl e
      | Inr line \<Rightarrow>
          (case check_match re self line of
             Inl e \<Rightarrow> Inl e
           | Inr True \<Rightarrow> Inr (Some line_no)
           | Inr False \<Rightarrow> scan_lines re self rest))"

text \<open>
  \<open>range(start_line, self.line_count)\<close> for direction 1, and
  \<open>range(start_line, -1, -1)\<close> otherwise.
\<close>

definition line_range :: "log_lines \<Rightarrow> int \<Rightarrow> int \<Rightarrow> int list" where
  "line_range self direction start_line =
     (if direction = 1 then [start_line .. line_count (mapped_file self) - 1]
      else rev [0 .. start_line])"

text \<open>
  The end of \<open>advance_search\<close>: when the pointer is set and outside the visible rows,
  \<open>is_scrolling\<close> is incremented and \<open>scroll_to\<close> is called.
\<close>

definition scroll_to_pointer :: "log_lines \<Rightarrow> log_lines" where
  "scroll_to_pointer self =
     (let scroll_y' = scroll_y self;
          max_scroll_y' = scroll_y' + region_height self - 1
      in case pointer_line self of
           None \<Rightarrow> self
         | Some p \<Rightarrow>
             if p < scroll_y' \<or> p > max_scroll_y' then
               (let y_offset = p - region_height self div 2
                in self\<lparr>is_scrolling := is_scrolling self + 1,
                        scroll_request := Some (y_offset, abs (y_offset - scroll_y self) > 1)\<rparr>)
             else self)"

text \<open>
  \<open>LogLines.advance_search\<close>. The pointer is assigned only where the loop breaks, so a
  scan without a match leaves it as it was.
\<close>

definition advance_search :: "re_engine \<Rightarrow> log_lines \<Rightarrow> int \<Rightarrow> error + log_lines" where
  "advance_search re self direction =
     (let start_line =
            (case pointer_line self of
               None \<Rightarrow> (if direction = 1 then scroll_y self else max_scroll_y self)
             | Some p \<Rightarrow> p + direction)
      in case scan_lines re self (line_range self direction start_line) of
           Inl e \<Rightarrow> Inl e
         | Inr None \<Rightarrow> Inr (scroll_to_pointer self)
         | Inr (Some line_no) \<Rightarrow>
             Inr (scroll_to_pointer (self\<lparr>pointer_line := Some line_no\<rparr>)))"

section \<open>Rendering a row\<close>

text \<open>
  The \<open>except KeyError\<close> branch of \<open>render_line\<close>: the line is read, the timestamp is
  put in front of the text when there is one and timestamps are shown, the words of the
  text are indexed, and the strip is built and cached. \<open>cell_len\<close> is the library's
  measure of the text in terminal cells. The calls that only change styles
  (\<open>stylize\<close>, \<open>highlight_find\<close>, which returns on an invalid pattern and never
  raises) leave no trace in the model.
\<close>

definition render_text ::
  "timestamp_scanner \<Rightarrow> (string \<Rightarrow> int) \<Rightarrow> log_lines \<Rightarrow> int \<Rightarrow> bool \<Rightarrow> error + (strip \<times> log_lines)" where
  "render_text scan cell_len self index is_pointer =
     (case get_text scan (mapped_file self) index of
        Inl e \<Rightarrow> Inl e
      | Inr (line, text, timestamp) \<Rightarrow>
          (let text' = (case timestamp of
                          None \<Rightarrow> text
                        | Some ts \<Rightarrow> if show_timestamps self then ts @ '' '' @ text else text);
               strip = Rendered text' (cell_len text')
           in Inr (strip,
                   self\<lparr>search_index := observe (search_index self) text',
                        max_width := max (max_width self) (cell_len text'),
                        render_line_cache :=
                          lru_set (render_line_cache self) (index, is_pointer) strip\<rparr>)))"

text \<open>The gutter icon of a row.\<close>

definition gutter_icon :: "log_lines \<Rightarrow> int \<Rightarrow> icon" where
  "gutter_icon self index =
     (if pointer_line self = Some index then Pointer_Hand
      else (case icons self index of None \<Rightarrow> Icon '' '' | Some i \<Rightarrow> Icon i))"

text \<open>
  \<open>LogLines.render_line\<close>. A row at or past \<open>line_count\<close> is blank and touches
  neither the caches nor the file; otherwise the strip comes from the render cache or
  from \<open>render_text\<close>, and is cropped and given its gutter.
\<close>

definition render_line ::
  "timestamp_scanner \<Rightarrow> (string \<Rightarrow> int) \<Rightarrow> log_lines \<Rightarrow> int \<Rightarrow> error + (strip \<times> log_lines)" where
  "render_line scan cell_len self y =
     (let index = y + scroll_y self
      in if index \<ge> line_count (mapped_file self) then Inr (Blank (width self), self)
         else
           (let is_pointer = (pointer_line self = Some index)
            in case (case lru_get (render_line_cache self) (index, is_pointer) of
                       None \<Rightarrow> render_text scan cell_len self index is_pointer
                     | Some (strip, cache') \<Rightarrow> Inr (strip, self\<lparr>render_line_cache := cache'\<rparr>)) of
                 Inl e \<Rightarrow> Inl e
               | Inr (strip, self') \<Rightarrow>
                   (let cropped =
                          Crop_Extend strip (scroll_x self') (scroll_x self' + width self') is_pointer
                    in Inr (if show_gutter self' then Gutter (gutter_icon self' index) cropped
                            else cropped, self'))))"

section \<open>What a scan visits\<close>

text \<open>
  The vocabulary in which the search is specified. \<open>line_matches\<close>: line \<open>n\<close> exists
  and \<open>check_match\<close> accepts its text. \<open>scanned\<close>: \<open>n\<close> lies on the way from the
  cursor \<open>c\<close> to the last line (direction 1) or to line 0 (any other direction), the
  cursor excluded. \<open>scanned_before\<close>: \<open>k\<close> is visited after the cursor and before
  \<open>n\<close>.
\<close>

definition line_matches :: "re_engine \<Rightarrow> log_lines \<Rightarrow> int \<Rightarrow> bool" where
  "line_matches re self n =
     (case get_line (mapped_file self) n of
        Inl e \<Rightarrow> False
      | Inr line \<Rightarrow> check_match re self line = Inr True)"

text \<open>
  The predicate can be evaluated: it is plain text, or a regex whose pattern compiles.
\<close>

definition predicate_ok :: "re_engine \<Rightarrow> log_lines \<Rightarrow> bool" where
  "predicate_ok re self = (regex self \<longrightarrow> re (find' self) (\<not> case_sensitive self) \<noteq> None)"

definition scanned :: "log_lines \<Rightarrow> int \<Rightarrow> int \<Rightarrow> int \<Rightarrow> bool" where
  "scanned self direction c n =
     (if direction = 1 then c < n \<and> n < line_count (mapped_file self) else 0 \<le> n \<and> n < c)"

definition scanned_before :: "int \<Rightarrow> int \<Rightarrow> int \<Rightarrow> int \<Rightarrow> bool" where
  "scanned_before direction c n k =
     (if direction = 1 then c < k \<and> k < n else n < k \<and> k < c)"

text \<open>
  The line number a search visits first: \<open>start_line\<close> of \<open>advance_search\<close>, taken
  from the pointer when there is one and from the scroll position otherwise.
\<close>

definition first_visited :: "log_lines \<Rightarrow> int \<Rightarrow> int" where
  "first_visited self direction =
     (case pointer_line self of
        None \<Rightarrow> (if direction = 1 then scroll_y self else max_scroll_y self)
      | Some p \<Rightarrow> p + direction)"

section \<open>What an observation goes through\<close>

text \<open>
  The vocabulary in which the index is specified. \<open>index_steps\<close> lists the passes of
  the inner loop that observing a text makes, each with its word and its offset, in
  order; \<open>index_step\<close> is one pass. \<open>observe_all\<close> observes a sequence of texts.
  \<open>kept k idx steps\<close>: the key \<open>k\<close> is in the index at the start and after every
  pass, that is, it is never evicted; \<open>never_evicted\<close> says so for a sequence of texts.
\<close>

definition word_steps :: "string \<Rightarrow> (string \<times> nat) list" where
  "word_steps word =
     (if length word \<le> 1 then [] else map (Pair word) [1 ..< length word - 1])"

definition index_steps :: "string \<Rightarrow> (string \<times> nat) list" where
  "index_steps text = concat (map word_steps (re_split text))"

definition index_step :: "string \<times> nat \<Rightarrow> search_index \<Rightarrow> search_index" where
  "index_step s idx = index_prefix (fst s) (snd s) idx"

fun kept :: "string \<Rightarrow> search_index \<Rightarrow> (string \<times> nat) list \<Rightarrow> bool" where
  "kept k idx [] = lru_contains idx k"
| "kept k idx (s # ss) = (lru_contains idx k \<and> kept k (index_step s idx) ss)"

definition observe_all :: "search_index \<Rightarrow> string list \<Rightarrow> search_index" where
  "observe_all idx texts = fold (\<lambda>text idx'. observe idx' text) texts idx"

definition never_evicted :: "string \<Rightarrow> search_index \<Rightarrow> string list \<Rightarrow> bool" where
  "never_evicted k idx texts = kept k idx (concat (map index_steps texts))"

section \<open>Concrete inputs\<close>

text \<open>
  A small engine for the closed examples. It compiles exactly the patterns without a
  special character, as literals (with \<open>re.IGNORECASE\<close>, compared in lowercase), which
  is what Python's \<open>re\<close> does for them; it rejects every other pattern, among them
  \<open>(\<close>, which \<open>re\<close> rejects as well (an unterminated group).
\<close>

definition re_special :: "char \<Rightarrow> bool" where
  "re_special c = (c \<in> set ''.^$*+?{}[]|()'' \<or> c = CHR 0x5C)"

definition literal_re :: re_engine where
  "literal_re pattern ignorecase =
     (if list_ex re_special pattern then None
      else Some (\<lambda>line pos.
             if ignorecase then prefix (lower pattern) (lower (drop pos line))
             else prefix pattern (drop pos line)))"

text \<open>No line carries a timestamp; every character takes one cell.\<close>

definition no_timestamp :: timestamp_scanner where
  "no_timestamp line = None"

definition one_cell_each :: "string \<Rightarrow> int" where
  "one_cell_each s = int (length s)"

text \<open>
  A widget over the three lines of the spec's search example, looking for \<open>ERROR\<close> as
  plain text without regard to case, with the pointer on line 0.
\<close>

definition example_view :: log_lines where
  "example_view =
     \<lparr>show_find = True, find' = ''ERROR'', case_sensitive = False, regex = False,
      show_gutter = True, pointer_line = Some 0, show_timestamps = True, is_scrolling = 0,
      mapped_file = \<lparr>file_lines = [''info'', ''ERROR: fail'', ''warn'']\<rparr>,
      render_line_cache = LRUCache 1000, max_width = 0, search_index = LRUCache 10000,
      icons = Map.empty, scroll_x = 0, scroll_y = 0, width = 80, height = 24,
      max_scroll_y = 0, region_height = 24, scroll_request = None\<rparr>"

section \<open>Matching: the empty line and the empty predicate\<close>

lemma str_in_Nil [simp]: "str_in [] line"
  by (induction line) simp_all

text \<open>
  C9. An empty line matches under every predicate: plain or regex, case-sensitive or
  not, whatever the find string is, including one that does not compile.
\<close>

theorem check_match_empty_line: "check_match re self [] = Inr True"
  by (simp add: check_match_def)

text \<open>\<open>str_in\<close> is substring containment.\<close>

lemma str_in_iff: "str_in needle line \<longleftrightarrow> (\<exists>before after. line = before @ needle @ after)"
proof (induction line)
  case Nil
  show ?case by auto
next
  case (Cons c cs)
  show ?case
  proof
    assume "str_in needle (c # cs)"
    then consider "prefix needle (c # cs)" | "str_in needle cs" by auto
    then show "\<exists>before after. c # cs = before @ needle @ after"
    proof cases
      case 1
      then obtain after where "c # cs = needle @ after" by (auto simp: prefix_def)
      then have "c # cs = [] @ needle @ after" by simp
      then show ?thesis by blast
    next
      case 2
      with Cons obtain before after where "cs = before @ needle @ after" by blast
      then have "c # cs = (c # before) @ needle @ after" by simp
      then show ?thesis by blast
    qed
  next
    assume "\<exists>before after. c # cs = before @ needle @ after"
    then obtain before after where split: "c # cs = before @ needle @ after" by blast
    show "str_in needle (c # cs)"
    proof (cases before)
      case Nil
      with split have "prefix needle (c # cs)" by (simp add: prefix_def)
      then show ?thesis by simp
    next
      case (Cons b bs)
      with split have "cs = bs @ needle @ after" by simp
      with Cons.IH have "str_in needle cs" by blast
      then show ?thesis by simp
    qed
  qed
qed

lemma literal_re_empty_pattern: "empty_pattern_matches literal_re"
  by (simp add: empty_pattern_matches_def literal_re_def lower_def)

text \<open>
  C7. With an empty find string \<open>check_match\<close> returns true for every line, for the
  plain and the regex variant and either case sensitivity. The plain variant is
  containment of the empty string. The regex variant is the library's test: the
  hypothesis is what \<open>re\<close> does with the empty pattern, which compiles and matches at
  the start of any line.
\<close>

theorem check_match_empty_find:
  assumes "find' self = []"
    and "regex self \<Longrightarrow> empty_pattern_matches re"
  shows "check_match re self line = Inr True"
proof (cases "regex self")
  case True
  with assms(2) obtain m
    where "re [] (\<not> case_sensitive self) = Some m" and "m line 0"
    unfolding empty_pattern_matches_def by blast
  with True assms(1) show ?thesis
    by (simp add: check_match_def re_match_def)
next
  case False
  with assms(1) show ?thesis
    by (simp add: check_match_def lower_def)
qed

theorem check_match_empty_find_witness:
  "find' (example_view\<lparr>find' := [], regex := True\<rparr>) = []
   \<and> empty_pattern_matches literal_re
   \<and> check_match literal_re (example_view\<lparr>find' := [], regex := True\<rparr>) ''warn'' = Inr True
   \<and> check_match literal_re (example_view\<lparr>find' := []\<rparr>) ''warn'' = Inr True"
  using check_match_empty_find
      [where self = "example_view\<lparr>find' := [], regex := True\<rparr>" and re = literal_re
        and line = "''warn''"]
    check_match_empty_find
      [where self = "example_view\<lparr>find' := []\<rparr>" and re = literal_re and line = "''warn''"]
    literal_re_empty_pattern
  by (simp add: example_view_def)

section \<open>Matching with a regular expression\<close>

text \<open>
  C6. For a non-empty line and a pattern that compiles, \<open>check_match\<close> is the
  library's test at position 0 (\<open>re.match\<close>). So a line in which the pattern is found
  only at a later position does not match, although an unanchored search finds it.
\<close>

theorem check_match_regex_anchored:
  assumes "regex self" and "line \<noteq> []"
    and "re (find' self) (\<not> case_sensitive self) = Some m"
  shows "check_match re self line = Inr (m line 0)
         \<and> (\<not> m line 0 \<and> (\<exists>pos. 0 < pos \<and> pos \<le> length line \<and> m line pos)
              \<longrightarrow> check_match re self line = Inr False
                  \<and> re_search re (find' self) line (\<not> case_sensitive self) = Inr True)"
proof -
  have anchored: "check_match re self line = Inr (m line 0)"
    using assms by (simp add: check_match_def re_match_def)
  have "re_search re (find' self) line (\<not> case_sensitive self) = Inr True"
    if "0 < pos" "pos \<le> length line" "m line pos" for pos
  proof -
    from that have "pos \<in> set [0 ..< Suc (length line)]" by auto
    with that(3) have "list_ex (m line) [0 ..< Suc (length line)]"
      unfolding list_ex_iff by blast
    then show ?thesis using assms(3) by (simp add: re_search_def)
  qed
  with anchored show ?thesis by auto
qed

theorem check_match_regex_anchored_witness:
  "regex (example_view\<lparr>regex := True, case_sensitive := True\<rparr>)
   \<and> ''an ERROR'' \<noteq> []
   \<and> literal_re (find' (example_view\<lparr>regex := True, case_sensitive := True\<rparr>))
        (\<not> case_sensitive (example_view\<lparr>regex := True, case_sensitive := True\<rparr>))
      = Some (\<lambda>line pos. prefix ''ERROR'' (drop pos line))
   \<and> check_match literal_re (example_view\<lparr>regex := True, case_sensitive := True\<rparr>) ''an ERROR''
      = Inr False
   \<and> re_search literal_re ''ERROR'' ''an ERROR'' False = Inr True"
proof -
  let ?view = "example_view\<lparr>regex := True, case_sensitive := True\<rparr>"
  let ?m = "\<lambda>line pos. prefix ''ERROR'' (drop pos line)"
  have a: "regex ?view" by simp
  have b: "''an ERROR'' \<noteq> []" by simp
  have c: "literal_re (find' ?view) (\<not> case_sensitive ?view) = Some ?m"
    by (simp add: example_view_def literal_re_def re_special_def)
  have d: "\<not> ?m ''an ERROR'' 0
           \<and> (\<exists>pos. 0 < pos \<and> pos \<le> length ''an ERROR'' \<and> ?m ''an ERROR'' pos)"
    by (intro conjI exI [of _ 3]) simp_all
  from check_match_regex_anchored [of ?view "''an ERROR''" literal_re ?m] a b c
  have "check_match literal_re ?view ''an ERROR'' = Inr False
        \<and> re_search literal_re (find' ?view) ''an ERROR'' (\<not> case_sensitive ?view) = Inr True"
    using d by blast
  then show ?thesis using a b c by (simp add: example_view_def)
qed

section \<open>Matching with a pattern that does not compile\<close>

lemma pointer_line_scroll_to_pointer [simp]:
  "pointer_line (scroll_to_pointer self) = pointer_line self"
  by (simp add: scroll_to_pointer_def Let_def split: option.split)

lemma mapped_file_scroll_to_pointer [simp]:
  "mapped_file (scroll_to_pointer self) = mapped_file self"
  by (simp add: scroll_to_pointer_def Let_def split: option.split)

lemma line_range_first:
  assumes "get_line (mapped_file self) start_line = Inr line"
  shows "\<exists>rest. line_range self direction start_line = start_line # rest"
proof -
  from assms have bounds: "0 \<le> start_line" "start_line < line_count (mapped_file self)"
    by (auto simp: get_line_def split: if_splits)
  show ?thesis
  proof (cases "direction = 1")
    case True
    with bounds show ?thesis by (simp add: line_range_def upto_rec1)
  next
    case False
    with bounds show ?thesis by (simp add: line_range_def upto_rec2)
  qed
qed

lemma advance_search_first_visited:
  "advance_search re self direction =
     (case scan_lines re self (line_range self direction (first_visited self direction)) of
        Inl e \<Rightarrow> Inl e
      | Inr None \<Rightarrow> Inr (scroll_to_pointer self)
      | Inr (Some line_no) \<Rightarrow> Inr (scroll_to_pointer (self\<lparr>pointer_line := Some line_no\<rparr>)))"
  by (simp add: advance_search_def first_visited_def)

text \<open>
  C1. With regex enabled and a pattern that does not compile, the match test does not
  return false on a non-empty line: the pattern reaches \<open>re.match\<close>, nothing in
  \<open>check_match\<close> catches its exception, and the call raises. A search raises with it
  as soon as the first line it visits is non-empty, whether it starts from the pointer or
  from the scroll position, and no pointer is set.
\<close>

theorem check_match_invalid_regex_raises:
  assumes "regex self"
    and "re (find' self) (\<not> case_sensitive self) = None"
    and "line \<noteq> []"
  shows "check_match re self line = Inl ReError
         \<and> (get_line (mapped_file self) (first_visited self direction) = Inr line
              \<longrightarrow> advance_search re self direction = Inl ReError)"
proof -
  have raises: "check_match re self line = Inl ReError"
    using assms by (simp add: check_match_def re_match_def)
  have "advance_search re self direction = Inl ReError"
    if visited: "get_line (mapped_file self) (first_visited self direction) = Inr line"
  proof -
    from line_range_first [OF visited] obtain rest
      where "line_range self direction (first_visited self direction)
             = first_visited self direction # rest"
      by blast
    then have "scan_lines re self (line_range self direction (first_visited self direction))
               = Inl ReError"
      using visited raises by simp
    then show ?thesis by (simp add: advance_search_first_visited)
  qed
  with raises show ?thesis by blast
qed

theorem check_match_invalid_regex_raises_witness:
  "regex (example_view\<lparr>regex := True, find' := ''(''\<rparr>)
   \<and> literal_re (find' (example_view\<lparr>regex := True, find' := ''(''\<rparr>))
        (\<not> case_sensitive (example_view\<lparr>regex := True, find' := ''(''\<rparr>)) = None
   \<and> ''ERROR: fail'' \<noteq> []
   \<and> get_line (mapped_file (example_view\<lparr>regex := True, find' := ''(''\<rparr>))
        (first_visited (example_view\<lparr>regex := True, find' := ''(''\<rparr>) 1) = Inr ''ERROR: fail''
   \<and> check_match literal_re (example_view\<lparr>regex := True, find' := ''(''\<rparr>) ''ERROR: fail''
      = Inl ReError
   \<and> advance_search literal_re (example_view\<lparr>regex := True, find' := ''(''\<rparr>) 1 = Inl ReError"
proof -
  let ?view = "example_view\<lparr>regex := True, find' := ''(''\<rparr>"
  have a: "regex ?view" by simp
  have b: "literal_re (find' ?view) (\<not> case_sensitive ?view) = None"
    by (simp add: example_view_def literal_re_def re_special_def)
  have c: "''ERROR: fail'' \<noteq> []" by simp
  have d: "get_line (mapped_file ?view) (first_visited ?view 1) = Inr ''ERROR: fail''"
    by (simp add: first_visited_def get_line_def line_count_def example_view_def)
  from check_match_invalid_regex_raises
      [where self = ?view and re = literal_re and line = "''ERROR: fail''" and direction = 1]
    a b c d
  have "check_match literal_re ?view ''ERROR: fail'' = Inl ReError
        \<and> advance_search literal_re ?view 1 = Inl ReError"
    by blast
  with a b c d show ?thesis by blast
qed

section \<open>The scan as a search for the first match\<close>

lemma check_match_no_raise:
  assumes "predicate_ok re self"
  shows "\<exists>b. check_match re self line = Inr b"
proof (cases "regex self")
  case True
  with assms obtain m where "re (find' self) (\<not> case_sensitive self) = Some m"
    by (auto simp: predicate_ok_def)
  with True show ?thesis by (auto simp: check_match_def re_match_def)
next
  case False
  then show ?thesis by (auto simp: check_match_def)
qed

text \<open>
  When every line number of the range is in the index and the predicate can be
  evaluated, the loop returns the first line number of the range that matches.
\<close>

lemma scan_lines_find:
  assumes "\<forall>n \<in> set ns. 0 \<le> n \<and> n < line_count (mapped_file self)"
    and "predicate_ok re self"
  shows "scan_lines re self ns = Inr (List.find (line_matches re self) ns)"
  using assms(1)
proof (induction ns)
  case Nil
  show ?case by simp
next
  case (Cons n ns)
  then have line: "get_line (mapped_file self) n = Inr (file_lines (mapped_file self) ! nat n)"
    by (simp add: get_line_def)
  from check_match_no_raise [OF assms(2)] obtain b
    where b: "check_match re self (file_lines (mapped_file self) ! nat n) = Inr b"
    by blast
  from Cons have rest: "scan_lines re self ns = Inr (List.find (line_matches re self) ns)"
    by simp
  have "line_matches re self n = b"
    using line b by (simp add: line_matches_def)
  then show ?case
    using line b rest by (cases b) simp_all
qed

lemma find_upto_Some:
  "List.find P [a..b] = Some n
   \<longleftrightarrow> a \<le> n \<and> n \<le> b \<and> P n \<and> (\<forall>k. a \<le> k \<and> k < n \<longrightarrow> \<not> P k)"
proof (induction a b rule: upto.induct)
  case (1 i j)
  show ?case
  proof (cases "i \<le> j")
    case False
    then show ?thesis by auto
  next
    case True
    then have unfold: "[i..j] = i # [i + 1..j]" by (rule upto_rec1)
    show ?thesis
    proof (cases "P i")
      case True
      then show ?thesis
        using \<open>i \<le> j\<close> unfold by (auto simp: not_less)
    next
      case False
      have "(\<forall>k. i \<le> k \<and> k < n \<longrightarrow> \<not> P k) \<longleftrightarrow> (\<forall>k. i + 1 \<le> k \<and> k < n \<longrightarrow> \<not> P k)"
        using False by (metis add1_zle_eq order_le_less)
      moreover have "i + 1 \<le> n \<and> P n \<longleftrightarrow> i \<le> n \<and> P n"
        using False by (metis add1_zle_eq order_le_less)
      ultimately show ?thesis
        using False unfold "1.IH" [OF True] by auto
    qed
  qed
qed

lemma find_rev_upto_Some:
  "List.find P (rev [a..b]) = Some n
   \<longleftrightarrow> a \<le> n \<and> n \<le> b \<and> P n \<and> (\<forall>k. n < k \<and> k \<le> b \<longrightarrow> \<not> P k)"
proof (induction "nat (b - a + 1)" arbitrary: b)
  case 0
  then have "b < a" by simp
  then show ?case by auto
next
  case (Suc m)
  then have le: "a \<le> b" and m: "m = nat ((b - 1) - a + 1)" by simp_all
  from le have unfold: "rev [a..b] = b # rev [a..b - 1]" by (simp add: upto_rec2)
  show ?case
  proof (cases "P b")
    case True
    have "n = b" if "n \<le> b" "\<forall>k. n < k \<and> k \<le> b \<longrightarrow> \<not> P k"
      using that True by (metis order_le_less order_refl)
    then show ?thesis
      using True le unfold by auto
  next
    case False
    have "(\<forall>k. n < k \<and> k \<le> b \<longrightarrow> \<not> P k) \<longleftrightarrow> (\<forall>k. n < k \<and> k \<le> b - 1 \<longrightarrow> \<not> P k)"
      using False by (metis zle_diff1_eq order_le_less)
    moreover have "n \<le> b - 1 \<and> P n \<longleftrightarrow> n \<le> b \<and> P n"
      using False by (metis zle_diff1_eq order_le_less)
    ultimately show ?thesis
      using False unfold Suc.hyps(1) [OF m] by auto
  qed
qed

text \<open>The pointer after a search whose range lies in the index.\<close>

lemma advance_search_pointer:
  assumes "pointer_line self = Some c"
    and "\<forall>n \<in> set (line_range self direction (c + direction)).
           0 \<le> n \<and> n < line_count (mapped_file self)"
    and "predicate_ok re self"
  shows "\<exists>self'. advance_search re self direction = Inr self'
           \<and> pointer_line self' =
               (case List.find (line_matches re self) (line_range self direction (c + direction)) of
                  None \<Rightarrow> Some c
                | Some n \<Rightarrow> Some n)"
  using assms(1) scan_lines_find [OF assms(2,3)]
  by (simp add: advance_search_def split: option.split)


text \<open>
  C4, as amended. For a cursor \<open>c\<close> and a direction of +1 or -1 such that the line
  numbers from \<open>c + direction\<close> on lie in the index, and a predicate that can be
  evaluated, \<open>advance_search\<close> visits the lines after the cursor toward the last line
  (direction +1) or toward line 0 (direction -1) and sets the pointer to the first one
  that matches. When none of them matches, the pointer stays on the cursor.
\<close>

theorem advance_search_first_match:
  assumes "pointer_line self = Some c"
    and "direction = 1 \<or> direction = - 1"
    and "direction = 1 \<Longrightarrow> - 1 \<le> c"
    and "direction = - 1 \<Longrightarrow> c \<le> line_count (mapped_file self)"
    and "predicate_ok re self"
  shows "\<exists>self'. advance_search re self direction = Inr self'
           \<and> ((\<exists>n. scanned self direction c n \<and> line_matches re self n)
                \<longrightarrow> (\<exists>n. pointer_line self' = Some n
                          \<and> scanned self direction c n \<and> line_matches re self n
                          \<and> (\<forall>k. scanned_before direction c n k \<longrightarrow> \<not> line_matches re self k)))
           \<and> ((\<forall>n. scanned self direction c n \<longrightarrow> \<not> line_matches re self n)
                \<longrightarrow> pointer_line self' = Some c)"
proof -
  let ?M = "line_matches re self"
  let ?ns = "line_range self direction (c + direction)"
  have in_index: "\<forall>n \<in> set ?ns. 0 \<le> n \<and> n < line_count (mapped_file self)"
    using assms(2-4) by (auto simp: line_range_def)
  from advance_search_pointer [OF assms(1) in_index assms(5)] obtain self'
    where ret: "advance_search re self direction = Inr self'"
      and ptr: "pointer_line self' = (case List.find ?M ?ns of None \<Rightarrow> Some c | Some n \<Rightarrow> Some n)"
    by blast
  have visited: "set ?ns = {n. scanned self direction c n}"
    using assms(2-4) by (auto simp: line_range_def scanned_def)
  have none: "pointer_line self' = Some c" if "\<forall>n. scanned self direction c n \<longrightarrow> \<not> ?M n"
  proof -
    from that visited have "List.find ?M ?ns = None"
      by (simp add: find_None_iff)
    with ptr show ?thesis by simp
  qed
  have some: "\<exists>n. pointer_line self' = Some n \<and> scanned self direction c n \<and> ?M n
                 \<and> (\<forall>k. scanned_before direction c n k \<longrightarrow> \<not> ?M k)"
    if "\<exists>n. scanned self direction c n \<and> ?M n"
  proof -
    from that visited have "List.find ?M ?ns \<noteq> None"
      by (simp add: find_None_iff)
    then obtain n where found: "List.find ?M ?ns = Some n" by blast
    from assms(2) have "scanned self direction c n \<and> ?M n
        \<and> (\<forall>k. scanned_before direction c n k \<longrightarrow> \<not> ?M k)"
    proof
      assume "direction = 1"
      with found show ?thesis
        by (auto simp: line_range_def scanned_def scanned_before_def find_upto_Some)
    next
      assume "direction = - 1"
      with found show ?thesis
        by (auto simp: line_range_def scanned_def scanned_before_def find_rev_upto_Some)
    qed
    with found ptr show ?thesis by simp
  qed
  from ret none some show ?thesis by blast
qed

theorem advance_search_first_match_witness:
  "pointer_line example_view = Some 0
   \<and> ((1 :: int) = 1 \<or> (1 :: int) = - 1)
   \<and> - 1 \<le> (0 :: int)
   \<and> predicate_ok literal_re example_view
   \<and> scanned example_view 1 0 1 \<and> line_matches literal_re example_view 1
   \<and> map_sum id pointer_line (advance_search literal_re example_view 1) = Inr (Some 1)"
proof -
  have a: "pointer_line example_view = Some 0" by (simp add: example_view_def)
  have b: "predicate_ok literal_re example_view"
    by (simp add: predicate_ok_def example_view_def)
  have c: "scanned example_view 1 0 1"
    by (simp add: scanned_def example_view_def line_count_def)
  have d: "line_matches literal_re example_view 1"
    by (simp add: line_matches_def get_line_def line_count_def check_match_def
        example_view_def lower_def lower_char_def is_upper_def)
  have e: "\<not> line_matches literal_re example_view 2"
    by (simp add: line_matches_def get_line_def line_count_def check_match_def
        example_view_def lower_def lower_char_def is_upper_def)
  from advance_search_first_match [of example_view 0 1 literal_re] a b obtain self'
    where ret: "advance_search literal_re example_view 1 = Inr self'"
      and first: "(\<exists>n. scanned example_view 1 0 n \<and> line_matches literal_re example_view n)
          \<longrightarrow> (\<exists>n. pointer_line self' = Some n
                 \<and> scanned example_view 1 0 n \<and> line_matches literal_re example_view n
                 \<and> (\<forall>k. scanned_before 1 0 n k \<longrightarrow> \<not> line_matches literal_re example_view k))"
    by auto
  from first c d obtain n where n: "pointer_line self' = Some n" "scanned example_view 1 0 n"
    "line_matches literal_re example_view n"
    "\<forall>k. scanned_before 1 0 n k \<longrightarrow> \<not> line_matches literal_re example_view k" by blast
  from n(2) have "n = 1 \<or> n = 2"
    by (auto simp: scanned_def example_view_def line_count_def)
  moreover have "scanned_before 1 0 2 1" by (simp add: scanned_before_def)
  ultimately have "n = 1" using n(4) d by blast
  with ret n(1) a b c d show ?thesis by simp
qed

text \<open>
  The claim as it was stated fails where the scan is exhausted: from the pointer on line
  0, lines 1 and 2 do not contain the text, and the pointer is still line 0 afterwards,
  not none.
\<close>

theorem advance_search_exhausted_counterexample:
  "\<not> line_matches literal_re
        (example_view\<lparr>mapped_file := \<lparr>file_lines = [''ERROR: fail'', ''info'', ''warn'']\<rparr>\<rparr>) 1
   \<and> \<not> line_matches literal_re
        (example_view\<lparr>mapped_file := \<lparr>file_lines = [''ERROR: fail'', ''info'', ''warn'']\<rparr>\<rparr>) 2
   \<and> map_sum id pointer_line
        (advance_search literal_re
           (example_view\<lparr>mapped_file := \<lparr>file_lines = [''ERROR: fail'', ''info'', ''warn'']\<rparr>\<rparr>) 1)
      = Inr (Some 0)"
  by (simp add: line_matches_def get_line_def line_count_def check_match_def advance_search_def
      line_range_def upto_rec1 example_view_def lower_def lower_char_def is_upper_def)

section \<open>Rows past the last line\<close>

lemma render_text_in_index:
  assumes "0 \<le> index" and "index < line_count (mapped_file self)"
  shows "\<exists>r. render_text scan cell_len self index is_pointer = Inr r"
  using assms
  by (simp add: render_text_def get_text_def get_line_def Let_def split: option.split prod.split)

text \<open>
  C10. A row whose index is at or past the line count is rendered as a blank strip of
  the widget's width, and the widget state is returned as it was: the caches and the
  file are not touched. On every other row (of index 0 or more) the line read is inside
  the index, so \<open>render_line\<close> never ends in the out-of-range failure.
\<close>

theorem render_line_blank_past_end:
  "(line_count (mapped_file self) \<le> y + scroll_y self
      \<longrightarrow> render_line scan cell_len self y = Inr (Blank (width self), self))
   \<and> (0 \<le> y + scroll_y self \<longrightarrow> (\<exists>r. render_line scan cell_len self y = Inr r))"
proof (intro conjI impI)
  assume "line_count (mapped_file self) \<le> y + scroll_y self"
  then show "render_line scan cell_len self y = Inr (Blank (width self), self)"
    by (simp add: render_line_def)
next
  assume nonneg: "0 \<le> y + scroll_y self"
  show "\<exists>r. render_line scan cell_len self y = Inr r"
  proof (cases "line_count (mapped_file self) \<le> y + scroll_y self")
    case True
    then show ?thesis by (simp add: render_line_def)
  next
    case False
    with nonneg render_text_in_index [of "y + scroll_y self" self scan cell_len
        "pointer_line self = Some (y + scroll_y self)"]
    obtain r where "render_text scan cell_len self (y + scroll_y self)
        (pointer_line self = Some (y + scroll_y self)) = Inr r"
      by auto
    with False show ?thesis
      by (simp add: render_line_def Let_def split: option.split prod.split)
  qed
qed

theorem render_line_blank_past_end_witness:
  "line_count (mapped_file example_view) \<le> 3 + scroll_y example_view
   \<and> 0 \<le> 3 + scroll_y example_view
   \<and> render_line no_timestamp one_cell_each example_view 3 = Inr (Blank 80, example_view)"
  using render_line_blank_past_end [of example_view 3 no_timestamp one_cell_each]
  by (simp add: example_view_def line_count_def)

section \<open>Suggestions\<close>

lemma re_split_not_Nil [simp]: "re_split s \<noteq> []"
  by (induction s) (simp_all split: list.split)

lemma re_split_no_delimiter:
  "\<forall>c \<in> set word. \<not> SPLIT_REGEX c \<Longrightarrow> re_split word = [word]"
  by (induction word) simp_all

lemma re_split_at_delimiter:
  "SPLIT_REGEX d \<Longrightarrow> re_split (xs @ d # ys) = re_split xs @ re_split ys"
proof (induction xs)
  case Nil
  then show ?case by simp
next
  case (Cons c cs)
  then show ?case
    by (cases "re_split cs") simp_all
qed

text \<open>The trailing token: what follows the last delimiter.\<close>

lemma last_re_split:
  assumes "\<forall>c \<in> set word. \<not> SPLIT_REGEX c"
    and "start = [] \<or> SPLIT_REGEX (last start)"
  shows "last (re_split (start @ word)) = word"
proof (cases "start = []")
  case True
  with assms(1) show ?thesis by (simp add: re_split_no_delimiter)
next
  case False
  with assms(2) have "start = butlast start @ [last start]" "SPLIT_REGEX (last start)"
    by simp_all
  then have "re_split (start @ word) = re_split (butlast start) @ re_split word"
    by (metis append_Cons append_Nil append_assoc re_split_at_delimiter)
  with assms(1) show ?thesis by (simp add: re_split_no_delimiter)
qed

text \<open>
  Every input is made of what precedes its trailing token, and the token: the longest
  suffix without a delimiter.
\<close>

lemma trailing_token_exists:
  "\<exists>start word. val = start @ word \<and> (\<forall>c \<in> set word. \<not> SPLIT_REGEX c)
     \<and> (start = [] \<or> SPLIT_REGEX (last start))"
proof -
  let ?word = "rev (takeWhile (\<lambda>c. \<not> SPLIT_REGEX c) (rev val))"
  let ?start = "rev (dropWhile (\<lambda>c. \<not> SPLIT_REGEX c) (rev val))"
  have "val = ?start @ ?word"
    by (metis rev_append rev_rev_ident takeWhile_dropWhile_id)
  moreover have "\<forall>c \<in> set ?word. \<not> SPLIT_REGEX c"
    by (auto dest: set_takeWhileD)
  moreover have "?start = [] \<or> SPLIT_REGEX (last ?start)"
    using hd_dropWhile [of "\<lambda>c. \<not> SPLIT_REGEX c" "rev val"] by (auto simp: last_rev)
  ultimately show ?thesis by blast
qed

text \<open>
  C5. Write the input as \<open>start @ word\<close>, where \<open>word\<close> is the trailing token: it has
  no delimiter, and \<open>start\<close> is empty or ends with one. When the token is empty there
  is no suggestion. Otherwise the lowercase token is looked up: a miss gives no
  suggestion, and a hit gives \<open>start\<close>, unchanged, followed by the stored word.
\<close>

theorem get_suggestion_trailing_token:
  assumes "val = start @ word"
    and "\<forall>c \<in> set word. \<not> SPLIT_REGEX c"
    and "start = [] \<or> SPLIT_REGEX (last start)"
  shows "fst (get_suggestion idx val) =
           (if word = [] then None
            else (case lru_lookup idx (lower word) of
                    None \<Rightarrow> None
                  | Some search_hit \<Rightarrow> Some (start @ search_hit)))"
proof -
  from last_re_split [OF assms(2,3)] assms(1) have "last (re_split val) = word" by simp
  with assms(1) show ?thesis
    by (simp add: get_suggestion_def lru_get_def split: option.split)
qed

text \<open>
  Lowering a character sets bit 5 of an uppercase code point (adding 32); in this form
  \<open>lower\<close> evaluates on a literal.
\<close>

lemma lower_char_bits:
  "lower_char c =
     (if is_upper c
      then Char (digit0 c) (digit1 c) (digit2 c) (digit3 c) (digit4 c) True (digit6 c) (digit7 c)
      else c)"
proof (cases c)
  case (Char b0 b1 b2 b3 b4 b5 b6 b7)
  then show ?thesis
    by (cases b0; cases b1; cases b2; cases b3; cases b4; cases b5; cases b6; cases b7)
      (simp_all add: lower_char_def is_upper_def char_of_eq_iff)
qed

text \<open>The definitions that evaluate the indexing loop on a concrete text.\<close>

lemmas observe_eval =
  observe_def index_word_def index_prefix_def SPLIT_REGEX_def is_space_def
  lru_contains_def lru_lookup_def lru_get_def lru_set_def lru_remove_def LRUCache_def
  lower_def lower_char_bits is_upper_def Let_def

text \<open>The index after \<open>error_code_42\<close> was observed: its prefixes of length 1 to 11.\<close>

lemma observe_error_code_42:
  "observe (LRUCache 10000) ''error_code_42'' =
     \<lparr>maxsize = 10000,
      entries = map (\<lambda>n. (take n ''error_code_42'', ''error_code_42''))
                  [11, 10, 9, 8, 7, 6, 5, 4, 3, 2, 1]\<rparr>"
  by (simp add: observe_eval)

theorem get_suggestion_trailing_token_witness:
  "''find /x[err'' = ''find /x['' @ ''err''
   \<and> \<not> list_ex SPLIT_REGEX ''err''
   \<and> SPLIT_REGEX (last ''find /x['')
   \<and> fst (get_suggestion (observe (LRUCache 10000) ''error_code_42'') ''find /x[err'')
      = Some ''find /x[error_code_42''"
  using get_suggestion_trailing_token [of "''find /x[err''" "''find /x[''" "''err''"
      "observe (LRUCache 10000) ''error_code_42''"]
  by (simp add: observe_error_code_42 SPLIT_REGEX_def is_space_def lru_lookup_def
      lower_def lower_char_bits is_upper_def)

text \<open>
  C8. From the empty index, after \<open>error_code_42\<close> is observed the suggestion for
  \<open>err\<close> is \<open>error_code_42\<close>. Observing \<open>err2\<close> afterwards leaves the value stored
  under \<open>err\<close> as it is, and the suggestion for \<open>err\<close> is still \<open>error_code_42\<close>.
\<close>

theorem suggest_err_error_code_42:
  "fst (get_suggestion (observe (LRUCache 10000) ''error_code_42'') ''err'')
     = Some ''error_code_42''
   \<and> lru_lookup
        (observe (snd (get_suggestion (observe (LRUCache 10000) ''error_code_42'') ''err''))
           ''err2'') ''err''
     = Some ''error_code_42''
   \<and> fst (get_suggestion
        (observe (snd (get_suggestion (observe (LRUCache 10000) ''error_code_42'') ''err''))
           ''err2'') ''err'')
     = Some ''error_code_42''"
  by (simp add: observe_error_code_42 get_suggestion_def observe_eval)

section \<open>What the indexing loop writes\<close>

lemma map_of_lru_remove:
  "map_of (lru_remove k es) k' = (if k' = k then None else map_of es k')"
  by (induction es) (auto simp: lru_remove_def)

lemma map_of_take_Some:
  "map_of (take n es) k = Some v \<Longrightarrow> map_of es k = Some v"
proof (induction es arbitrary: n)
  case Nil
  then show ?case by simp
next
  case (Cons e es)
  then show ?case
    by (cases n) (auto split: if_splits)
qed

lemma lru_lookup_set_Some:
  assumes "lru_lookup (lru_set c k v) k' = Some v'"
  shows "(k' = k \<and> v' = v \<and> \<not> lru_contains c k) \<or> lru_lookup c k' = Some v'"
proof (cases "lru_contains c k")
  case True
  with assms show ?thesis by (simp add: lru_set_def)
next
  case False
  with assms have "map_of ((k, v) # entries c) k' = Some v'"
    by (auto simp: lru_lookup_def lru_set_def dest: map_of_take_Some)
  with False show ?thesis
    by (auto simp: lru_lookup_def split: if_splits)
qed

lemma lru_lookup_get:
  assumes "lru_get c k = Some (v, c')"
  shows "lru_lookup c' k' = lru_lookup c k'"
  using assms
  by (auto simp: lru_get_def lru_lookup_def map_of_lru_remove split: option.splits)

text \<open>
  One pass of the inner loop leaves an entry as it was, or writes the word under the
  lowercase prefix of that pass, which was not a key.
\<close>

lemma index_prefix_writes:
  assumes "lru_lookup (index_prefix word n idx) k = Some v"
  shows "lru_lookup idx k = Some v
         \<or> (k = lower (take n word) \<and> v = word \<and> lru_lookup idx k = None)"
proof (cases "lru_contains idx (take n word)")
  case False
  with assms have "lru_lookup (lru_set idx (lower (take n word)) word) k = Some v"
    by (simp add: index_prefix_def)
  from lru_lookup_set_Some [OF this] show ?thesis
    by (auto simp: lru_contains_def)
next
  case True
  then obtain hit idx' where got: "lru_get idx (take n word) = Some (hit, idx')"
    by (auto simp: lru_contains_def lru_get_def)
  show ?thesis
  proof (cases "length hit < length word")
    case True
    with assms got \<open>lru_contains idx (take n word)\<close>
    have "lru_lookup (lru_set idx' (lower (take n word)) word) k = Some v"
      by (simp add: index_prefix_def)
    from lru_lookup_set_Some [OF this] lru_lookup_get [OF got] show ?thesis
      by (auto simp: lru_contains_def)
  next
    case False
    with assms got \<open>lru_contains idx (take n word)\<close>
    have "lru_lookup idx' k = Some v"
      by (simp add: index_prefix_def)
    with lru_lookup_get [OF got] show ?thesis by simp
  qed
qed

lemma fold_index_prefix_writes:
  assumes "lru_lookup (fold (index_prefix word) ns idx) k = Some v"
  shows "lru_lookup idx k = Some v \<or> (v = word \<and> (\<exists>n \<in> set ns. k = lower (take n word)))"
  using assms
proof (induction ns arbitrary: idx)
  case Nil
  then show ?case by simp
next
  case (Cons n ns)
  then have "lru_lookup (index_prefix word n idx) k = Some v
      \<or> (v = word \<and> (\<exists>n \<in> set ns. k = lower (take n word)))"
    by simp
  then show ?case
    by (auto dest: index_prefix_writes)
qed

text \<open>
  Indexing a word leaves an entry as it was, or writes the word under one of its
  lowercase prefixes of length 1 to \<open>len(word) - 2\<close>. The prefix of length
  \<open>len(word) - 1\<close> is not among them.
\<close>

lemma index_word_writes:
  assumes "lru_lookup (index_word word idx) k = Some v"
  shows "lru_lookup idx k = Some v
         \<or> (v = word \<and> (\<exists>n. 1 \<le> n \<and> n + 1 < length word \<and> k = lower (take n word)))"
proof (cases "length word \<le> 1")
  case True
  with assms show ?thesis by (simp add: index_word_def)
next
  case False
  with assms have "lru_lookup (fold (index_prefix word) [1 ..< length word - 1] idx) k = Some v"
    by (simp add: index_word_def)
  from fold_index_prefix_writes [OF this] consider "lru_lookup idx k = Some v"
    | n where "v = word" "1 \<le> n" "n < length word - 1" "k = lower (take n word)"
    by auto
  then show ?thesis
  proof cases
    case 1
    then show ?thesis by simp
  next
    case 2
    then have "1 \<le> n \<and> n + 1 < length word \<and> k = lower (take n word)" by simp
    with 2(1) show ?thesis by blast
  qed
qed

section \<open>The longest proper prefix\<close>

text \<open>
  C2. The inner loop runs over \<open>range(1, len(word) - 1)\<close>, so the longest proper
  prefix of a token is not stored. The token \<open>ab\<close> has length 2 and passes the guard
  \<open>len(word) <= 1\<close>, but the loop makes no pass and the index stays empty: its proper
  prefix \<open>a\<close> is not stored. For \<open>abc\<close> the prefix \<open>a\<close> is stored and the prefix
  \<open>ab\<close> is not.
\<close>

theorem observe_skips_longest_prefix:
  "entries (observe (LRUCache 10000) ''ab'') = []
   \<and> lru_lookup (observe (LRUCache 10000) ''abc'') ''a'' = Some ''abc''
   \<and> lru_lookup (observe (LRUCache 10000) ''abc'') ''ab'' = None"
  by (simp add: observe_eval)

section \<open>Stored words\<close>

text \<open>An observation is the sequence of its passes.\<close>

lemma index_word_steps: "index_word word idx = fold index_step (word_steps word) idx"
proof -
  have "index_step \<circ> Pair word = index_prefix word"
    by (intro ext) (simp add: index_step_def)
  then show ?thesis
    by (simp add: index_word_def word_steps_def fold_map)
qed

lemma fold_index_word_steps:
  "fold index_word ws idx = fold index_step (concat (map word_steps ws)) idx"
  by (induction ws arbitrary: idx) (simp_all add: index_word_steps)

lemma observe_steps: "observe idx text = fold index_step (index_steps text) idx"
  by (simp add: observe_def index_steps_def fold_index_word_steps)

lemma observe_all_steps:
  "observe_all idx texts = fold index_step (concat (map index_steps texts)) idx"
  unfolding observe_all_def
  by (induction texts arbitrary: idx) (simp_all add: observe_steps)

text \<open>A pass never changes the value of a key that is in the index before and after it.\<close>

lemma index_step_keeps_value:
  assumes "lru_lookup idx k = Some v" and "lru_lookup (index_step s idx) k = Some v'"
  shows "v' = v"
  using index_prefix_writes [of "fst s" "snd s" idx k v'] assms
  by (auto simp: index_step_def)

lemma kept_contains: "kept k idx steps \<Longrightarrow> lru_contains idx k"
  by (cases steps) simp_all

lemma kept_keeps_value:
  assumes "lru_lookup idx k = Some v" and "kept k idx steps"
  shows "lru_lookup (fold index_step steps idx) k = Some v"
  using assms
proof (induction steps arbitrary: idx)
  case Nil
  then show ?case by simp
next
  case (Cons s steps)
  from Cons.prems(2) have rest: "kept k (index_step s idx) steps" by simp
  then obtain v' where "lru_lookup (index_step s idx) k = Some v'"
    using kept_contains by (fastforce simp: lru_contains_def)
  with index_step_keeps_value [OF Cons.prems(1) this]
  have "lru_lookup (index_step s idx) k = Some v" by simp
  from Cons.IH [OF this rest] show ?case by simp
qed

text \<open>Below its capacity the index evicts nothing: a key that is in it is kept.\<close>

lemma maxsize_index_step [simp]: "maxsize (index_step s idx) = maxsize idx"
  by (auto simp: index_step_def index_prefix_def lru_set_def lru_get_def lru_contains_def
      Let_def split: option.split)

lemma length_entries_lru_get:
  assumes "lru_get c k = Some (v, c')"
  shows "length (entries c') \<le> length (entries c)"
proof -
  from assms have "map_of (entries c) k = Some v"
      and c': "entries c' = (k, v) # lru_remove k (entries c)"
    by (auto simp: lru_get_def lru_lookup_def split: option.splits)
  then have "(k, v) \<in> set (entries c)" by (simp add: map_of_SomeD)
  then have "length (lru_remove k (entries c)) < length (entries c)"
    unfolding lru_remove_def by (intro length_filter_less [of "(k, v)"]) simp_all
  with c' show ?thesis by simp
qed

lemma lru_set_below_capacity:
  assumes "length (entries c) < maxsize c"
  shows "length (entries (lru_set c k v)) \<le> Suc (length (entries c))"
    and "lru_contains c k' \<Longrightarrow> lru_contains (lru_set c k v) k'"
  using assms by (auto simp: lru_set_def lru_contains_def lru_lookup_def)

lemma index_step_below_capacity:
  assumes "length (entries idx) < maxsize idx" and "lru_contains idx k"
  shows "lru_contains (index_step s idx) k"
    and "length (entries (index_step s idx)) \<le> Suc (length (entries idx))"
proof -
  let ?sub = "take (snd s) (fst s)"
  have "lru_contains (index_step s idx) k
        \<and> length (entries (index_step s idx)) \<le> Suc (length (entries idx))"
  proof (cases "lru_contains idx ?sub")
    case False
    with assms lru_set_below_capacity [OF assms(1)] show ?thesis
      by (simp add: index_step_def index_prefix_def)
  next
    case True
    then obtain hit idx' where got: "lru_get idx ?sub = Some (hit, idx')"
      by (auto simp: lru_contains_def lru_get_def)
    from got have size': "maxsize idx' = maxsize idx"
      by (auto simp: lru_get_def split: option.splits)
    from length_entries_lru_get [OF got] assms(1) size'
    have room: "length (entries idx') < maxsize idx'"
      and le: "length (entries idx') \<le> length (entries idx)" by simp_all
    from assms(2) lru_lookup_get [OF got] have k': "lru_contains idx' k"
      by (simp add: lru_contains_def)
    from lru_set_below_capacity [OF room] k' le True got show ?thesis
      by (auto simp: index_step_def index_prefix_def Let_def
          intro: le_trans [of _ "Suc (length (entries idx'))"])
  qed
  then show "lru_contains (index_step s idx) k"
    and "length (entries (index_step s idx)) \<le> Suc (length (entries idx))"
    by simp_all
qed

lemma kept_below_capacity:
  assumes "lru_contains idx k" and "length (entries idx) + length steps \<le> maxsize idx"
  shows "kept k idx steps"
  using assms
proof (induction steps arbitrary: idx)
  case Nil
  then show ?case by simp
next
  case (Cons s steps)
  then have room: "length (entries idx) < maxsize idx" by simp
  from index_step_below_capacity [OF room Cons.prems(1), of s] Cons.prems(2)
  have "lru_contains (index_step s idx) k"
    and "length (entries (index_step s idx)) + length steps \<le> maxsize (index_step s idx)"
    by simp_all
  from Cons.IH [OF this] Cons.prems(1) show ?case by simp
qed

lemma never_evicted_below_capacity:
  assumes "lru_contains idx k"
    and "length (entries idx) + length (concat (map index_steps texts)) \<le> maxsize idx"
  shows "never_evicted k idx texts"
  using assms by (simp add: never_evicted_def kept_below_capacity)

text \<open>
  C3. Take any index, any key with a stored word, and any sequence of texts observed
  next. If the key is never evicted on the way, the word stored under it afterwards is
  at least as long as the one stored before; it is in fact the same word. A shorter
  incoming word never replaces it.
\<close>

theorem stored_word_never_shrinks:
  assumes "lru_lookup idx k = Some v"
    and "never_evicted k idx texts"
  shows "\<exists>v'. lru_lookup (observe_all idx texts) k = Some v' \<and> length v \<le> length v' \<and> v' = v"
  using kept_keeps_value [OF assms(1), of "concat (map index_steps texts)"] assms(2)
  by (simp add: never_evicted_def observe_all_steps)

theorem stored_word_never_shrinks_witness:
  "lru_lookup (observe (LRUCache 10000) ''error_code_42'') ''err'' = Some ''error_code_42''
   \<and> never_evicted ''err'' (observe (LRUCache 10000) ''error_code_42'') [''ERROR'', ''err2'']
   \<and> lru_lookup (observe_all (observe (LRUCache 10000) ''error_code_42'') [''ERROR'', ''err2''])
        ''err''
      = Some ''error_code_42''"
proof -
  let ?idx = "observe (LRUCache 10000) ''error_code_42''"
  have a: "lru_lookup ?idx ''err'' = Some ''error_code_42''"
    by (simp add: observe_error_code_42 lru_lookup_def)
  have b: "never_evicted ''err'' ?idx [''ERROR'', ''err2'']"
    by (simp add: observe_error_code_42 never_evicted_def index_steps_def word_steps_def
        index_step_def index_prefix_def SPLIT_REGEX_def is_space_def lru_contains_def
        lru_lookup_def lru_get_def lru_set_def lru_remove_def lower_def lower_char_bits
        is_upper_def Let_def)
  from stored_word_never_shrinks [OF a b] a b show ?thesis by auto
qed

end
